theory Spec2Isabelle
  imports Main "HOL-Library.Word"
begin

section \<open>Strings of UTF-16 code units\<close>

text \<open>
  A JavaScript string is a sequence of 16-bit code units; \<open>length\<close>, \<open>match.index\<close> and
  the offsets of a match all count code units.  \<open>utf16\<close> embeds an Isabelle string literal
  (characters below U+0100, one code unit each).
\<close>

type_synonym codeunit = "16 word"
type_synonym jsstring = "codeunit list"

definition utf16 :: "string \<Rightarrow> jsstring" where
  "utf16 s = map of_char s"

definition LF :: codeunit where "LF = 0x0A"
definition dquote :: codeunit where "dquote = 0x22"
definition squote :: codeunit where "squote = 0x27"
definition backslash :: codeunit where "backslash = 0x5C"
definition backtick :: codeunit where "backtick = 0x60"

text \<open>ECMAScript \<open>LineTerminator\<close> and \<open>WhiteSpace\<close> code units.\<close>

definition isLineTerminator :: "codeunit \<Rightarrow> bool" where
  "isLineTerminator c = (c = 0x0A \<or> c = 0x0D \<or> c = 0x2028 \<or> c = 0x2029)"

definition isWhiteSpace :: "codeunit \<Rightarrow> bool" where
  "isWhiteSpace c =
     (c = 0x09 \<or> c = 0x0B \<or> c = 0x0C \<or> c = 0x20 \<or> c = 0xA0 \<or> c = 0x1680 \<or>
      (0x2000 \<le> c \<and> c \<le> 0x200A) \<or> c = 0x202F \<or> c = 0x205F \<or> c = 0x3000 \<or> c = 0xFEFF)"

text \<open>The escapes \<open>\s\<close>, \<open>\d\<close> and \<open>\w\<close> of a regular expression without the
  \<open>u\<close> and \<open>i\<close> flags.\<close>

definition isSpace :: "codeunit \<Rightarrow> bool" where
  "isSpace c = (isWhiteSpace c \<or> isLineTerminator c)"

definition isDigit :: "codeunit \<Rightarrow> bool" where
  "isDigit c = (0x30 \<le> c \<and> c \<le> 0x39)"

definition isWordChar :: "codeunit \<Rightarrow> bool" where
  "isWordChar c =
     ((0x61 \<le> c \<and> c \<le> 0x7A) \<or> (0x41 \<le> c \<and> c \<le> 0x5A) \<or> isDigit c \<or> c = 0x5F)"

text \<open>\<open>String.prototype.trim\<close>: white space and line terminators are removed at both ends.\<close>

definition trim :: "jsstring \<Rightarrow> jsstring" where
  "trim s = rev (dropWhile isSpace (rev (dropWhile isSpace s)))"

text \<open>\<open>text.split('\n')\<close>: the segments between line feeds; carriage returns stay.\<close>

fun splitAcc :: "jsstring \<Rightarrow> jsstring \<Rightarrow> jsstring list" where
  "splitAcc cur [] = [rev cur]"
| "splitAcc cur (c # cs) = (if c = LF then rev cur # splitAcc [] cs else splitAcc (c # cur) cs)"

definition split :: "jsstring \<Rightarrow> jsstring list" where
  "split s = splitAcc [] s"

section \<open>Regular expressions\<close>

text \<open>
  The regular expression literals of the source, as syntax trees, with the backtracking
  semantics of ECMA-262: a matcher returns the states it can end in, in the order in which
  a backtracking engine tries them, so the head of the list is the match the engine
  reports.  A state is the input that is left and the captures so far.
\<close>

datatype citem = CChar codeunit | CRange codeunit codeunit | CDigit | CWord | CSpace | CNotSpace

datatype regex =
    Empty
  | Chr codeunit
  | Dot
  | Cls bool "citem list"
  | Bol
  | Eol
  | Seq regex regex
  | Alt regex regex
  | Quant regex nat "nat option" bool
  | Group nat regex

type_synonym captures = "jsstring option list"
type_synonym mstate = "jsstring \<times> captures"

fun itemMatches :: "citem \<Rightarrow> codeunit \<Rightarrow> bool" where
  "itemMatches (CChar c) a = (a = c)"
| "itemMatches (CRange lo hi) a = (lo \<le> a \<and> a \<le> hi)"
| "itemMatches CDigit a = isDigit a"
| "itemMatches CWord a = isWordChar a"
| "itemMatches CSpace a = isSpace a"
| "itemMatches CNotSpace a = (\<not> isSpace a)"

text \<open>\<open>Cls neg items\<close> is \<open>[items]\<close>, or \<open>[^items]\<close> when \<open>neg\<close> holds.\<close>

definition classMatches :: "bool \<Rightarrow> citem list \<Rightarrow> codeunit \<Rightarrow> bool" where
  "classMatches neg items a = (list_ex (\<lambda>i. itemMatches i a) items \<noteq> neg)"

fun groupsOf :: "regex \<Rightarrow> nat list" where
  "groupsOf (Seq a b) = groupsOf a @ groupsOf b"
| "groupsOf (Alt a b) = groupsOf a @ groupsOf b"
| "groupsOf (Quant r mn mx greedy) = groupsOf r"
| "groupsOf (Group k r) = k # groupsOf r"
| "groupsOf r = []"

definition resetCaptures :: "nat list \<Rightarrow> captures \<Rightarrow> captures" where
  "resetCaptures ks caps = fold (\<lambda>k c. c[k := None]) ks caps"

text \<open>
  \<open>rmatch n r (s, caps)\<close>: \<open>n\<close> is the length of the whole input, \<open>s\<close> what is left of it.
  The quantifier follows \<open>RepeatMatcher\<close>: the captures inside the atom are reset before each
  iteration, an iteration that consumes nothing once the minimum is reached fails, and a
  greedy quantifier tries one more iteration before it tries to stop.
\<close>

function (sequential) rmatch :: "nat \<Rightarrow> regex \<Rightarrow> mstate \<Rightarrow> mstate list" where
  "rmatch n Empty (s, caps) = [(s, caps)]"
| "rmatch n (Chr c) (s, caps) =
     (case s of [] \<Rightarrow> [] | a # t \<Rightarrow> if a = c then [(t, caps)] else [])"
| "rmatch n Dot (s, caps) =
     (case s of [] \<Rightarrow> [] | a # t \<Rightarrow> if isLineTerminator a then [] else [(t, caps)])"
| "rmatch n (Cls neg items) (s, caps) =
     (case s of [] \<Rightarrow> [] | a # t \<Rightarrow> if classMatches neg items a then [(t, caps)] else [])"
| "rmatch n Bol (s, caps) = (if length s = n then [(s, caps)] else [])"
| "rmatch n Eol (s, caps) = (if s = [] then [(s, caps)] else [])"
| "rmatch n (Seq r1 r2) x = concat (map (rmatch n r2) (rmatch n r1 x))"
| "rmatch n (Alt r1 r2) x = rmatch n r1 x @ rmatch n r2 x"
| "rmatch n (Group k r) (s, caps) =
     map (\<lambda>(s', caps'). (s', caps'[k := Some (take (length s - length s') s)]))
       (rmatch n r (s, caps))"
| "rmatch n (Quant r mn mx greedy) (s, caps) =
    (if mx = Some 0 then [(s, caps)]
     else
       let iter = concat (map (\<lambda>(s', caps').
                    if mn = 0 \<and> length s' = length s then []
                    else rmatch n (Quant r (mn - 1) (map_option (\<lambda>k. k - 1) mx) greedy) (s', caps'))
                  (rmatch n r (s, resetCaptures (groupsOf r) caps)))
       in if mn \<noteq> 0 then iter
          else if greedy then iter @ [(s, caps)]
          else (s, caps) # iter)"
  by pat_completeness auto

lemma rmatch_shorter:
  "rmatch_dom (n, r, x) \<Longrightarrow> y \<in> set (rmatch n r x) \<Longrightarrow> length (fst y) \<le> length (fst x)"
proof (induction n r x arbitrary: y rule: rmatch.pinduct)
  case (7 n r1 r2 x)
  from 7(1,4) obtain z where z: "z \<in> set (rmatch n r1 x)" "y \<in> set (rmatch n r2 z)"
    by (auto simp: rmatch.psimps)
  from 7(2)[OF z(1)] 7(3)[OF z] show ?case by simp
next
  case (10 n r mn mx greedy s caps)
  show ?case
  proof (cases "mx = Some 0")
    case True
    with 10(1,4) show ?thesis by (simp add: rmatch.psimps)
  next
    case False
    let ?it = "concat (map (\<lambda>(s', caps').
                   if mn = 0 \<and> length s' = length s then []
                   else rmatch n (Quant r (mn - 1) (map_option (\<lambda>k. k - 1) mx) greedy) (s', caps'))
                 (rmatch n r (s, resetCaptures (groupsOf r) caps)))"
    have it: "length (fst y) \<le> length s" if "y \<in> set ?it"
    proof -
      from that obtain s' c'
        where z: "(s', c') \<in> set (rmatch n r (s, resetCaptures (groupsOf r) caps))"
        and nz: "\<not> (mn = 0 \<and> length s' = length s)"
        and y: "y \<in> set (rmatch n (Quant r (mn - 1) (map_option (\<lambda>k. k - 1) mx) greedy) (s', c'))"
        by (auto split: if_splits)
      from 10(2)[OF False z] have "length s' \<le> length s" by simp
      moreover from 10(3)[OF False z refl nz y] have "length (fst y) \<le> length s'" by simp
      ultimately show ?thesis by simp
    qed
    from 10(1,4) False have "y \<in> set ?it \<or> y = (s, caps)"
      by (auto simp: rmatch.psimps Let_def split: if_splits)
    with it show ?thesis by auto
  qed
qed (auto simp: rmatch.psimps split: list.splits if_splits)

fun qmin :: "regex \<Rightarrow> nat" where
  "qmin (Quant r mn mx greedy) = mn"
| "qmin r = 0"

lemma rmatch_dom_all: "All rmatch_dom"
  apply (relation "measures [\<lambda>(n, r, s, caps). size r, \<lambda>(n, r, s, caps). qmin r,
                             \<lambda>(n, r, s, caps). length s]")
  apply simp_all
  apply (fastforce dest: rmatch_shorter)
  done

termination rmatch
  by (rule rmatch_dom_all)

declare rmatch.simps [simp del]


subsection \<open>RegExp objects, \<open>exec\<close> and \<open>test\<close>\<close>

text \<open>
  A RegExp object carries its pattern, its \<open>g\<close> flag and the mutable \<open>lastIndex\<close>.
  \<open>search\<close> is the loop of \<open>RegExpBuiltinExec\<close> (no sticky flag): it tries the matcher at
  each position from the start of \<open>s\<close> on and returns the start, the end and the captures
  of the first match.  The capture list has slot \<open>k\<close> for group \<open>k\<close>; slot 0 is not used.
\<close>

record RegExp =
  source :: regex
  global :: bool
  lastIndex :: nat

record MatchResult =
  index :: nat
  matched :: jsstring
  captured :: captures

definition initCaptures :: "regex \<Rightarrow> captures" where
  "initCaptures r = replicate (Suc (length (groupsOf r))) None"

fun search :: "nat \<Rightarrow> regex \<Rightarrow> jsstring \<Rightarrow> (nat \<times> nat \<times> captures) option" where
  "search n r [] =
     (case rmatch n r ([], initCaptures r) of
        [] \<Rightarrow> None
      | (s', caps) # alts \<Rightarrow> Some (n, n - length s', caps))"
| "search n r (a # t) =
     (case rmatch n r (a # t, initCaptures r) of
        [] \<Rightarrow> search n r t
      | (s', caps) # alts \<Rightarrow> Some (n - length (a # t), n - length s', caps))"

definition exec :: "RegExp \<Rightarrow> jsstring \<Rightarrow> MatchResult option \<times> RegExp" where
  "exec R S =
     (let i0 = (if global R then lastIndex R else 0) in
      if i0 > length S then (None, if global R then R\<lparr>lastIndex := 0\<rparr> else R)
      else
        (case search (length S) (source R) (drop i0 S) of
           None \<Rightarrow> (None, if global R then R\<lparr>lastIndex := 0\<rparr> else R)
         | Some (i, e, caps) \<Rightarrow>
             (Some \<lparr>index = i, matched = take (e - i) (drop i S), captured = caps\<rparr>,
              if global R then R\<lparr>lastIndex := e\<rparr> else R)))"

definition test :: "RegExp \<Rightarrow> jsstring \<Rightarrow> bool \<times> RegExp" where
  "test R S = (case exec R S of (None, R') \<Rightarrow> (False, R') | (Some match, R') \<Rightarrow> (True, R'))"

text \<open>\<open>match[k]\<close>: the matched text for 0, capture \<open>k\<close> otherwise; \<open>None\<close> is \<open>undefined\<close>
  (a group that did not take part, or an index past the end of the array).\<close>

definition at :: "MatchResult \<Rightarrow> nat \<Rightarrow> jsstring option" where
  "at match k =
     (if k = 0 then Some (matched match)
      else if k < length (captured match) then captured match ! k
      else None)"

text \<open>\<open>a || b\<close> on values that are a string or \<open>undefined\<close>: the empty string and
  \<open>undefined\<close> are falsy.\<close>

definition truthy :: "jsstring option \<Rightarrow> bool" where
  "truthy v = (case v of None \<Rightarrow> False | Some s \<Rightarrow> s \<noteq> [])"

definition jsOr :: "jsstring option \<Rightarrow> jsstring option \<Rightarrow> jsstring option" where
  "jsOr a b = (if truthy a then a else b)"

subsection \<open>Writing the literals\<close>

fun seq :: "regex list \<Rightarrow> regex" where
  "seq [] = Empty"
| "seq [r] = r"
| "seq (r # rs) = Seq r (seq rs)"

abbreviation star :: "regex \<Rightarrow> regex" where "star r \<equiv> Quant r 0 None True"
abbreviation lazyStar :: "regex \<Rightarrow> regex" where "lazyStar r \<equiv> Quant r 0 None False"
abbreviation plus :: "regex \<Rightarrow> regex" where "plus r \<equiv> Quant r 1 None True"
abbreviation opt :: "regex \<Rightarrow> regex" where "opt r \<equiv> Quant r 0 (Some 1) True"

definition ch :: "char \<Rightarrow> codeunit" where
  "ch c = of_char c"

definition literal :: "regex \<Rightarrow> RegExp" where
  "literal r = \<lparr>source = r, global = False, lastIndex = 0\<rparr>"

definition literal_g :: "regex \<Rightarrow> RegExp" where
  "literal_g r = \<lparr>source = r, global = True, lastIndex = 0\<rparr>"

section \<open>The string detector\<close>

text \<open>
  The interface \<open>DetectedString\<close>; the field \<open>text\<close> is written \<open>text'\<close>.  In the
  functions below the parameters \<open>line\<close> and \<open>languageId\<close> of the source are written
  \<open>ln\<close> and \<open>langId\<close>, the names being taken by the fields.
\<close>

record DetectedString =
  text' :: jsstring
  line :: nat
  startChar :: nat
  endChar :: nat
  quoteType :: jsstring
  languageId :: jsstring

record pattern =
  name :: jsstring
  regex :: RegExp

subsection \<open>\<open>looksLikeCode\<close>\<close>

definition az :: citem where "az = CRange (ch CHR ''a'') (ch CHR ''z'')"
definition AZ :: citem where "AZ = CRange (ch CHR ''A'') (ch CHR ''Z'')"
definition d09 :: citem where "d09 = CRange (ch CHR ''0'') (ch CHR ''9'')"

text \<open>
  The nine literals of \<open>codePatterns\<close>, in the order of the source:
  \<^enum> \<^verbatim>\<open>/^[a-zA-Z_][a-zA-Z0-9_]*$/\<close> (single identifier)
  \<^enum> \<^verbatim>\<open>/^\d+$/\<close> (just numbers)
  \<^enum> \<^verbatim>\<open>/^[\w\-\.]+\.[a-zA-Z]{2,4}$/\<close> (file extensions or URLs)
  \<^enum> \<^verbatim>\<open>/^[#@$][\w\-]+/\<close> (CSS selectors, variables)
  \<^enum> \<^verbatim>\<open>/[{}\[\]();,]/\<close> (code punctuation)
  \<^enum> \<^verbatim>\<open>/^\s*$/\<close> (empty or whitespace only)
  \<^enum> \<^verbatim>\<open>/^[\w\s]*:\s*[\w\s]*$/\<close> (key-value pairs)
  \<^enum> \<^verbatim>\<open>/^\w+\(.*\)$/\<close> (function calls)
  \<^enum> \<^verbatim>\<open>/^[<>]=?|[!=]=|[&|]{2}/\<close> (operators)
\<close>

definition codePatterns :: "RegExp list" where
  "codePatterns =
    [ literal (seq [Bol, Cls False [az, AZ, CChar (ch CHR ''_'')],
                    star (Cls False [az, AZ, d09, CChar (ch CHR ''_'')]), Eol]),
      literal (seq [Bol, plus (Cls False [CDigit]), Eol]),
      literal (seq [Bol, plus (Cls False [CWord, CChar (ch CHR ''-''), CChar (ch CHR ''.'')]),
                    Chr (ch CHR ''.''), Quant (Cls False [az, AZ]) 2 (Some 4) True, Eol]),
      literal (seq [Bol, Cls False [CChar (ch CHR ''#''), CChar (ch CHR ''@''), CChar (ch CHR ''$'')],
                    plus (Cls False [CWord, CChar (ch CHR ''-'')])]),
      literal (Cls False [CChar (ch CHR ''{''), CChar (ch CHR ''}''), CChar (ch CHR ''[''),
                          CChar (ch CHR '']''), CChar (ch CHR ''(''), CChar (ch CHR '')''),
                          CChar (ch CHR '';''), CChar (ch CHR '','')]),
      literal (seq [Bol, star (Cls False [CSpace]), Eol]),
      literal (seq [Bol, star (Cls False [CWord, CSpace]), Chr (ch CHR '':''),
                    star (Cls False [CSpace]), star (Cls False [CWord, CSpace]), Eol]),
      literal (seq [Bol, plus (Cls False [CWord]), Chr (ch CHR ''(''), star Dot,
                    Chr (ch CHR '')''), Eol]),
      literal (Alt (seq [Bol, Cls False [CChar (ch CHR ''<''), CChar (ch CHR ''>'')],
                         opt (Chr (ch CHR ''=''))])
              (Alt (seq [Cls False [CChar (ch CHR ''!''), CChar (ch CHR ''='')], Chr (ch CHR ''='')])
                   (Quant (Cls False [CChar (ch CHR ''&''), CChar (ch CHR ''|'')]) 2 (Some 2) True))) ]"

definition looksLikeCode :: "jsstring \<Rightarrow> bool" where
  "looksLikeCode text = list_ex (\<lambda>pattern. fst (test pattern text)) codePatterns"

subsection \<open>\<open>getStringPatterns\<close>\<close>

text \<open>The three literals \<open>/"([^"\\]*(\\.[^"\\]*)*)"/g\<close>, with \<open>'\<close> and with a backtick
  have one shape; \<open>q\<close> is the delimiter.\<close>

definition quoted :: "codeunit \<Rightarrow> regex" where
  "quoted q =
     seq [Chr q,
          Group 1 (seq [star (Cls True [CChar q, CChar backslash]),
                        star (Group 2 (seq [Chr backslash, Dot,
                                            star (Cls True [CChar q, CChar backslash])]))]),
          Chr q]"

text \<open>\<open>/"""([\s\S]*?)"""/g\<close> and the same with \<open>'\<close>.\<close>

definition tripleQuoted :: "codeunit \<Rightarrow> regex" where
  "tripleQuoted q =
     seq [Chr q, Chr q, Chr q, Group 1 (lazyStar (Cls False [CSpace, CNotSpace])),
          Chr q, Chr q, Chr q]"

text \<open>\<open>/@"([^"]*(?:""[^"]*)*)"/g\<close>\<close>

definition verbatim :: regex where
  "verbatim =
     seq [Chr (ch CHR ''@''), Chr dquote,
          Group 1 (seq [star (Cls True [CChar dquote]),
                        star (seq [Chr dquote, Chr dquote, star (Cls True [CChar dquote])])]),
          Chr dquote]"

definition basePatterns :: "pattern list" where
  "basePatterns =
     [\<lparr>name = utf16 ''double'', regex = literal_g (quoted dquote)\<rparr>,
      \<lparr>name = utf16 ''single'', regex = literal_g (quoted squote)\<rparr>]"

definition getStringPatterns :: "jsstring \<Rightarrow> pattern list" where
  "getStringPatterns langId =
     (if langId = utf16 ''javascript'' \<or> langId = utf16 ''typescript'' \<or>
         langId = utf16 ''javascriptreact'' \<or> langId = utf16 ''typescriptreact''
      then basePatterns @ [\<lparr>name = utf16 ''template'', regex = literal_g (quoted backtick)\<rparr>]
      else if langId = utf16 ''python''
      then basePatterns @
             [\<lparr>name = utf16 ''triple-double'', regex = literal_g (tripleQuoted dquote)\<rparr>,
              \<lparr>name = utf16 ''triple-single'', regex = literal_g (tripleQuoted squote)\<rparr>]
      else if langId = utf16 ''csharp'' \<or> langId = utf16 ''fsharp''
      then basePatterns @ [\<lparr>name = utf16 ''verbatim'', regex = literal_g verbatim\<rparr>]
      else if langId = utf16 ''php''
      then basePatterns
      else basePatterns)"

subsection \<open>\<open>extractStringsFromLine\<close>\<close>

text \<open>
  The \<open>while\<close> loop over \<open>pattern.regex.exec(line)\<close>.  It ends when \<open>exec\<close> returns
  \<open>null\<close>, or at the \<open>break\<close> of a pattern without the \<open>g\<close> flag; a pattern that can
  match the empty string would keep it running, so the loop is a partial function and
  \<open>None\<close> stands for a loop that does not end.
\<close>

partial_function (option) whileExec ::
  "pattern \<Rightarrow> jsstring \<Rightarrow> nat \<Rightarrow> jsstring \<Rightarrow> DetectedString list
     \<Rightarrow> (pattern \<times> DetectedString list) option" where
  "whileExec pattern ln lineIndex langId strings =
     (case exec (regex pattern) ln of
        (None, R) \<Rightarrow> Some (pattern\<lparr>regex := R\<rparr>, strings)
      | (Some match, R) \<Rightarrow>
          (let pattern' = pattern\<lparr>regex := R\<rparr>;
               fullMatch = matched match;
               stringContent = jsOr (jsOr (at match 1) (at match 2)) (at match 3)
           in case stringContent of
                None \<Rightarrow> whileExec pattern' ln lineIndex langId strings
              | Some content \<Rightarrow>
                  if content = [] \<or> length (trim content) < 2
                  then whileExec pattern' ln lineIndex langId strings
                  else if looksLikeCode content
                  then whileExec pattern' ln lineIndex langId strings
                  else
                    (let strings' = strings @
                           [\<lparr>text' = content, line = lineIndex, startChar = index match,
                             endChar = index match + length fullMatch,
                             quoteType = name pattern', languageId = langId\<rparr>]
                     in if \<not> global (regex pattern') then Some (pattern', strings')
                        else whileExec pattern' ln lineIndex langId strings')))"

text \<open>The \<open>for\<close> loop over the patterns; \<open>lastIndex\<close> is set to 0 after each pattern.\<close>

fun forPatterns ::
  "pattern list \<Rightarrow> jsstring \<Rightarrow> nat \<Rightarrow> jsstring \<Rightarrow> DetectedString list
     \<Rightarrow> (pattern list \<times> DetectedString list) option" where
  "forPatterns [] ln lineIndex langId strings = Some ([], strings)"
| "forPatterns (pattern # rest) ln lineIndex langId strings =
     (case whileExec pattern ln lineIndex langId strings of
        None \<Rightarrow> None
      | Some (pattern', strings') \<Rightarrow>
          (case forPatterns rest ln lineIndex langId strings' of
             None \<Rightarrow> None
           | Some (rest', strings'') \<Rightarrow>
               Some (pattern'\<lparr>regex := (regex pattern')\<lparr>lastIndex := 0\<rparr>\<rparr> # rest', strings'')))"

definition extractStringsFromLine ::
  "jsstring \<Rightarrow> nat \<Rightarrow> jsstring \<Rightarrow> DetectedString list option" where
  "extractStringsFromLine ln lineIndex langId =
     map_option snd (forPatterns (getStringPatterns langId) ln lineIndex langId [])"

subsection \<open>\<open>detectStrings\<close>\<close>

text \<open>
  The detector object holds the last result; the logger appends lines to an output channel
  (the time stamp in front of each line is left out).  The document is the host's: its
  file name, its language identifier and its text.
\<close>

record StringDetector =
  detectedStrings :: "DetectedString list"
  outputChannel :: "jsstring list"

record TextDocument =
  fileName :: jsstring
  docLanguageId :: jsstring
  getText :: jsstring

text \<open>
  JavaScript can throw any value.  Of a thrown value \<open>Logger.error\<close> looks at two things:
  whether it is truthy, and, if it is, what evaluating \<open>${error.toString()}\<close> gives.  That is
  a string for every \<open>Error\<close> object; for a value without a \<open>toString\<close> method (or whose
  \<open>toString\<close> throws) it is an exception in turn, a \<open>TypeError\<close> in the first case.
\<close>

datatype thrown =
    Falsy
  | Printable jsstring
  | Unprintable thrown

fun decimal :: "nat \<Rightarrow> jsstring" where
  "decimal n = (if n < 10 then [0x30 + of_nat n] else decimal (n div 10) @ [0x30 + of_nat (n mod 10)])"

declare decimal.simps [simp del]

definition logger_log :: "jsstring \<Rightarrow> StringDetector \<Rightarrow> StringDetector" where
  "logger_log message this = this\<lparr>outputChannel := outputChannel this @ [message]\<rparr>"

text \<open>
  \<open>Logger.error\<close>: \<open>errorDetails\<close> is \<open>error ? ` - ${error.toString()}` : ''\<close>, computed
  before the line is appended, so that nothing is appended when it throws (\<open>Inl\<close>).
\<close>

definition errorDetails :: "thrown \<Rightarrow> thrown + jsstring" where
  "errorDetails error =
     (case error of
        Falsy \<Rightarrow> Inr []
      | Printable s \<Rightarrow> Inr (utf16 '' - '' @ s)
      | Unprintable e \<Rightarrow> Inl e)"

definition logger_error :: "jsstring \<Rightarrow> thrown \<Rightarrow> StringDetector \<Rightarrow> thrown + StringDetector" where
  "logger_error message error this =
     (case errorDetails error of
        Inl e \<Rightarrow> Inl e
      | Inr details \<Rightarrow>
          Inr (this\<lparr>outputChannel := outputChannel this @
                      [utf16 ''ERROR: '' @ message @ details]\<rparr>))"

text \<open>
  The loop over the lines, each line's result appended to \<open>this.detectedStrings\<close>.  The
  source has no \<open>throw\<close> of its own; what the \<open>try\<close> block guards against is an exception
  of the runtime or of the host.  \<open>raises i\<close> is the value, if any, that is thrown while line
  \<open>i\<close> is scanned: the loop then stops with it, and with the detections pushed so far.
\<close>

fun forLines ::
  "(nat \<Rightarrow> thrown option) \<Rightarrow> jsstring list \<Rightarrow> nat \<Rightarrow> jsstring \<Rightarrow> DetectedString list
     \<Rightarrow> (thrown option \<times> DetectedString list) option" where
  "forLines raises [] lineIndex langId detected = Some (None, detected)"
| "forLines raises (ln # rest) lineIndex langId detected =
     (case raises lineIndex of
        Some error \<Rightarrow> Some (Some error, detected)
      | None \<Rightarrow>
          (case extractStringsFromLine ln lineIndex langId of
             None \<Rightarrow> None
           | Some stringsInLine \<Rightarrow>
               forLines raises rest (Suc lineIndex) langId (detected @ stringsInLine)))"

text \<open>
  \<open>detectStrings\<close> returns normally (\<open>Inr\<close>) or with an exception (\<open>Inl\<close>: the promise of
  the \<open>async\<close> function is rejected), and the detector object after the call.  The \<open>catch\<close>
  block calls \<open>this.logger.error\<close>, which is outside any \<open>try\<close>: what it throws leaves
  \<open>detectStrings\<close>.
\<close>

definition detectStrings ::
  "(nat \<Rightarrow> thrown option) \<Rightarrow> TextDocument \<Rightarrow> StringDetector
     \<Rightarrow> ((thrown + DetectedString list) \<times> StringDetector) option" where
  "detectStrings raises document this =
     (let this1 = this\<lparr>detectedStrings := []\<rparr>;
          this2 = logger_log (utf16 ''Detecting strings in '' @ fileName document) this1
      in case forLines raises (split (getText document)) 0 (docLanguageId document)
                (detectedStrings this2) of
           None \<Rightarrow> None
         | Some (None, detected) \<Rightarrow>
             (let this3 = this2\<lparr>detectedStrings := detected\<rparr>;
                  this4 = logger_log (utf16 ''Detected '' @ decimal (length (detectedStrings this3))
                                        @ utf16 '' strings'') this3
              in Some (Inr (detectedStrings this4), this4))
         | Some (Some error, detected) \<Rightarrow>
             (let this3 = this2\<lparr>detectedStrings := detected\<rparr>
              in case logger_error (utf16 ''Error detecting strings'') error this3 of
                   Inl e \<Rightarrow> Some (Inl e, this3)
                 | Inr this4 \<Rightarrow> Some (Inr [], this4)))"

text \<open>\<open>detect\<close> is the scan as a function of the document's text and language identifier,
  when the runtime raises nothing.\<close>

definition noException :: "nat \<Rightarrow> thrown option" where
  "noException i = None"

definition detect :: "jsstring \<Rightarrow> jsstring \<Rightarrow> DetectedString list option" where
  "detect documentText langId =
     map_option snd (forLines noException (split documentText) 0 langId [])"


section \<open>Auxiliary definitions\<close>

text \<open>
  What follows is used to reason about the model and is not part of it.  \<open>consumes r\<close>
  is a syntactic condition under which every match of \<open>r\<close> is non-empty.  \<open>allMatches\<close>
  lists the successive results of \<open>exec\<close> on a global pattern, \<open>accept\<close> is the body of the
  \<open>while\<close> loop for one match, and \<open>scanPattern\<close>, \<open>scanLine\<close> and \<open>scanLines\<close> are the
  detections of one pattern on a line, of a line, and of the lines of a document.
\<close>

fun consumes :: "regex \<Rightarrow> bool" where
  "consumes (Chr c) = True"
| "consumes Dot = True"
| "consumes (Cls neg items) = True"
| "consumes (Seq r1 r2) = (consumes r1 \<or> consumes r2)"
| "consumes (Alt r1 r2) = (consumes r1 \<and> consumes r2)"
| "consumes (Group k r) = consumes r"
| "consumes (Quant r mn mx greedy) = (consumes r \<and> 0 < mn \<and> mx \<noteq> Some 0)"
| "consumes r = False"

function allMatches :: "regex \<Rightarrow> jsstring \<Rightarrow> nat \<Rightarrow> MatchResult list" where
  "allMatches r S k =
     (if length S < k then []
      else case search (length S) r (drop k S) of
             None \<Rightarrow> []
           | Some (i, e, caps) \<Rightarrow>
               \<lparr>index = i, matched = take (e - i) (drop i S), captured = caps\<rparr> #
               (if k < e then allMatches r S e else []))"
  by pat_completeness auto
termination
  by (relation "measure (\<lambda>(r, S, k). Suc (length S) - k)") auto

declare allMatches.simps [simp del]

definition accept :: "jsstring \<Rightarrow> nat \<Rightarrow> jsstring \<Rightarrow> MatchResult \<Rightarrow> DetectedString list" where
  "accept nm lineIndex langId match =
     (case jsOr (jsOr (at match 1) (at match 2)) (at match 3) of
        None \<Rightarrow> []
      | Some content \<Rightarrow>
          if content = [] \<or> length (trim content) < 2 \<or> looksLikeCode content then []
          else [\<lparr>text' = content, line = lineIndex, startChar = index match,
                 endChar = index match + length (matched match),
                 quoteType = nm, languageId = langId\<rparr>])"

definition scanPattern :: "pattern \<Rightarrow> jsstring \<Rightarrow> nat \<Rightarrow> jsstring \<Rightarrow> DetectedString list" where
  "scanPattern p S lineIndex langId =
     concat (map (accept (name p) lineIndex langId) (allMatches (source (regex p)) S 0))"

definition wellFormed :: "pattern \<Rightarrow> bool" where
  "wellFormed p = (consumes (source (regex p)) \<and> global (regex p) \<and> lastIndex (regex p) = 0)"

definition scanLine :: "jsstring \<Rightarrow> nat \<Rightarrow> jsstring \<Rightarrow> DetectedString list" where
  "scanLine S lineIndex langId =
     concat (map (\<lambda>p. scanPattern p S lineIndex langId) (getStringPatterns langId))"

fun scanLines :: "jsstring list \<Rightarrow> nat \<Rightarrow> jsstring \<Rightarrow> DetectedString list" where
  "scanLines [] lineIndex langId = []"
| "scanLines (S # rest) lineIndex langId =
     scanLine S lineIndex langId @ scanLines rest (Suc lineIndex) langId"

text \<open>The iterations of a quantifier over an explicit list of first-iteration results.\<close>

definition iterResults ::
  "nat \<Rightarrow> regex \<Rightarrow> nat \<Rightarrow> nat option \<Rightarrow> bool \<Rightarrow> jsstring \<Rightarrow> mstate list \<Rightarrow> mstate list" where
  "iterResults n r mn mx greedy s ys =
     concat (map (\<lambda>(s', caps').
                    if mn = 0 \<and> length s' = length s then []
                    else rmatch n (Quant r (mn - 1) (map_option (\<lambda>k. k - 1) mx) greedy) (s', caps'))
                 ys)"


text \<open>
  The order in which the scan emits: by line, then by the position of the pattern in
  \<open>getStringPatterns\<close> (identified by its name, the quote type), then by start column.
\<close>

definition patternRank :: "jsstring \<Rightarrow> jsstring \<Rightarrow> nat" where
  "patternRank langId q = length (takeWhile (\<lambda>p. name p \<noteq> q) (getStringPatterns langId))"

definition codeOrder :: "jsstring \<Rightarrow> DetectedString \<Rightarrow> DetectedString \<Rightarrow> bool" where
  "codeOrder langId a b =
     (line a < line b \<or>
      (line a = line b \<and>
       (patternRank langId (quoteType a) < patternRank langId (quoteType b) \<or>
        (quoteType a = quoteType b \<and> startChar a < startChar b))))"

text \<open>The order of the specification: by line, then by start column, ties in any order.\<close>

definition specOrder :: "DetectedString \<Rightarrow> DetectedString \<Rightarrow> bool" where
  "specOrder a b = (line a < line b \<or> (line a = line b \<and> startChar a \<le> startChar b))"


text \<open>The items of the character class \<open>[{}\[\]();,]\<close> of \<open>codePatterns\<close>.\<close>

definition codePunctuation :: "citem list" where
  "codePunctuation =
     [CChar (ch CHR ''{''), CChar (ch CHR ''}''), CChar (ch CHR ''[''),
      CChar (ch CHR '']''), CChar (ch CHR ''(''), CChar (ch CHR '')''),
      CChar (ch CHR '';''), CChar (ch CHR '','')]"

section \<open>The matcher\<close>

lemma rmatch_le:
  "y \<in> set (rmatch n r x) \<Longrightarrow> length (fst y) \<le> length (fst x)"
proof -
  have "rmatch_dom (n, r, x)" using rmatch_dom_all by (cases x) auto
  then show "y \<in> set (rmatch n r x) \<Longrightarrow> length (fst y) \<le> length (fst x)"
    by (rule rmatch_shorter)
qed

lemma rmatch_Quant_iter:
  assumes "y \<in> set (rmatch n (Quant r mn mx greedy) (s, caps))" "0 < mn" "mx \<noteq> Some 0"
  shows "\<exists>z \<in> set (rmatch n r (s, resetCaptures (groupsOf r) caps)).
           y \<in> set (rmatch n (Quant r (mn - 1) (map_option (\<lambda>k. k - 1) mx) greedy) z)"
proof -
  from assms(1) have "y \<in> set (concat (map (\<lambda>(s', caps').
                    if mn = 0 \<and> length s' = length s then []
                    else rmatch n (Quant r (mn - 1) (map_option (\<lambda>k. k - 1) mx) greedy) (s', caps'))
                  (rmatch n r (s, resetCaptures (groupsOf r) caps))))"
    using assms(2,3) by (subst (asm) rmatch.simps(10)) (simp add: Let_def)
  with assms(2) show ?thesis by auto
qed

lemma rmatch_lt:
  "consumes r \<Longrightarrow> y \<in> set (rmatch n r x) \<Longrightarrow> length (fst y) < length (fst x)"
proof (induction n r x arbitrary: y rule: rmatch.induct)
  case (7 n r1 r2 x)
  from 7(4) obtain z where z: "z \<in> set (rmatch n r1 x)" "y \<in> set (rmatch n r2 z)"
    by (auto simp: rmatch.simps(7))
  from rmatch_le[OF z(1)] rmatch_le[OF z(2)] 7(1)[OF _ z(1)] 7(2)[OF z(1) _ z(2)] 7(3)
  show ?case by auto
next
  case (10 n r mn mx greedy s caps)
  from 10(3) have c: "consumes r" "0 < mn" "mx \<noteq> Some 0" by auto
  from rmatch_Quant_iter[OF 10(4) c(2,3)] obtain z
    where z: "z \<in> set (rmatch n r (s, resetCaptures (groupsOf r) caps))"
      and y: "y \<in> set (rmatch n (Quant r (mn - 1) (map_option (\<lambda>k. k - 1) mx) greedy) z)"
    by auto
  from 10(1)[OF c(3) c(1) z] rmatch_le[OF y] show ?case by simp
next
  case (8 n r1 r2 x)
  then show ?case by (cases y) (auto simp: rmatch.simps(8))
next
  case (9 n k r s caps)
  from 9(3) obtain z where "z \<in> set (rmatch n r (s, caps))" "fst y = fst z"
    by (auto simp: rmatch.simps(9))
  with 9(1)[of z] 9(2) show ?case by simp
qed (auto simp: rmatch.simps(1-6) split: list.splits if_splits)

lemma search_bounds:
  "search n r s = Some (i, e, caps) \<Longrightarrow> length s \<le> n \<Longrightarrow>
     n - length s \<le> i \<and> i \<le> e \<and> e \<le> n \<and> (consumes r \<longrightarrow> i < e)"
proof (induction s)
  case Nil
  show ?case
  proof (cases "rmatch n r ([], initCaptures r)")
    case Nil
    with Nil.prems show ?thesis by auto
  next
    case (Cons y ys)
    then have y: "y \<in> set (rmatch n r ([], initCaptures r))" by simp
    from rmatch_le[OF y] rmatch_lt[OF _ y] Cons Nil.prems show ?thesis
      by (cases y) auto
  qed
next
  case (Cons a t)
  show ?case
  proof (cases "rmatch n r (a # t, initCaptures r)")
    case Nil
    with Cons show ?thesis by auto
  next
    case (Cons y ys)
    then have y: "y \<in> set (rmatch n r (a # t, initCaptures r))" by simp
    from rmatch_le[OF y] rmatch_lt[OF _ y] Cons Cons.prems show ?thesis
      by (cases y) auto
  qed
qed


lemma iterResults_Nil: "iterResults n r mn mx greedy s [] = []"
  by (simp add: iterResults_def)

lemma iterResults_Cons:
  "iterResults n r mn mx greedy s ((s', caps') # ys) =
     (if mn = 0 \<and> length s' = length s then []
      else rmatch n (Quant r (mn - 1) (map_option (\<lambda>k. k - 1) mx) greedy) (s', caps'))
     @ iterResults n r mn mx greedy s ys"
  by (simp add: iterResults_def)

lemma rmatch_Quant:
  "rmatch n (Quant r mn mx greedy) (s, caps) =
    (if mx = Some 0 then [(s, caps)]
     else if mn \<noteq> 0
       then iterResults n r mn mx greedy s (rmatch n r (s, resetCaptures (groupsOf r) caps))
     else if greedy
       then iterResults n r mn mx greedy s (rmatch n r (s, resetCaptures (groupsOf r) caps)) @ [(s, caps)]
     else (s, caps) # iterResults n r mn mx greedy s (rmatch n r (s, resetCaptures (groupsOf r) caps)))"
  unfolding iterResults_def by (subst rmatch.simps(10)) (simp only: Let_def)

lemmas rmatch_eval = rmatch.simps(1-9) rmatch_Quant iterResults_Nil iterResults_Cons
  classMatches_def isLineTerminator_def isSpace_def isWhiteSpace_def isDigit_def isWordChar_def
  resetCaptures_def initCaptures_def

lemmas regex_eval = rmatch_eval exec_def test_def literal_def literal_g_def at_def jsOr_def truthy_def
  ch_def dquote_def squote_def backslash_def backtick_def az_def AZ_def d09_def


section \<open>The loops\<close>

lemma whileExec_allMatches:
  "source (regex p) = r \<Longrightarrow> lastIndex (regex p) = k \<Longrightarrow> global (regex p) \<Longrightarrow> consumes r \<Longrightarrow>
   whileExec p S i L acc =
     Some (p\<lparr>regex := (regex p)\<lparr>lastIndex := 0\<rparr>\<rparr>,
           acc @ concat (map (accept (name p) i L) (allMatches r S k)))"
proof (induction r S k arbitrary: p acc rule: allMatches.induct)
  case (1 r S k)
  show ?case
  proof (cases "length S < k")
    case True
    then show ?thesis using 1(2-4)
      by (subst whileExec.simps, subst allMatches.simps) (simp add: exec_def)
  next
    case False
    note nk = this
    show ?thesis
    proof (cases "search (length S) r (drop k S)")
      case None
      then show ?thesis using 1(2-4) nk
        by (subst whileExec.simps, subst allMatches.simps) (simp add: exec_def)
    next
      case (Some res)
      obtain j e caps where res: "res = (j, e, caps)" by (cases res) 
      from search_bounds[OF Some[unfolded res]] nk 1(5) have b: "k \<le> j" "j < e" "e \<le> length S"
        by auto
      then have ke: "k < e" by simp
      define p' where "p' = p\<lparr>regex := (regex p)\<lparr>lastIndex := e\<rparr>\<rparr>"
      have p': "source (regex p') = r" "lastIndex (regex p') = e" "global (regex p')"
        "name p' = name p" "p'\<lparr>regex := (regex p')\<lparr>lastIndex := 0\<rparr>\<rparr> = p\<lparr>regex := (regex p)\<lparr>lastIndex := 0\<rparr>\<rparr>"
        using 1(2-4) by (simp_all add: p'_def)
      note IH = 1(1)[OF nk Some[unfolded res] refl refl ke p'(1,2,3) 1(5), unfolded p'(4,5)]
      have am: "allMatches r S k =
          \<lparr>index = j, matched = take (e - j) (drop j S), captured = caps\<rparr> # allMatches r S e"
        using nk Some res ke by (subst allMatches.simps) simp
      define m0 where "m0 = \<lparr>index = j, matched = take (e - j) (drop j S), captured = caps\<rparr>"
      have step: "whileExec p S i L acc = whileExec p' S i L (acc @ accept (name p) i L m0)"
        apply (subst whileExec.simps)
        using nk Some res 1(2-4)
        apply (simp add: exec_def p'_def[symmetric] m0_def[symmetric] Let_def accept_def p'
                    split: option.splits)
        done
      show ?thesis
        by (simp add: step IH am m0_def)
    qed
  qed
qed



lemma getStringPatterns_wellFormed: "list_all wellFormed (getStringPatterns L)"
  by (simp add: getStringPatterns_def basePatterns_def wellFormed_def literal_g_def
        quoted_def tripleQuoted_def verbatim_def)

lemma forPatterns_scan:
  "list_all wellFormed ps \<Longrightarrow>
   forPatterns ps S i L acc =
     Some (map (\<lambda>p. p\<lparr>regex := (regex p)\<lparr>lastIndex := 0\<rparr>\<rparr>) ps,
           acc @ concat (map (\<lambda>p. scanPattern p S i L) ps))"
proof (induction ps arbitrary: acc)
  case Nil
  show ?case by simp
next
  case (Cons p ps)
  from Cons.prems have wp: "wellFormed p" and ps: "list_all wellFormed ps"
    by simp_all
  from wp have p: "consumes (source (regex p))" "global (regex p)" "lastIndex (regex p) = 0"
    by (simp_all add: wellFormed_def)
  have w: "whileExec p S i L acc =
     Some (p\<lparr>regex := (regex p)\<lparr>lastIndex := 0\<rparr>\<rparr>, acc @ scanPattern p S i L)"
    using whileExec_allMatches[OF refl p(3) p(2) p(1), of S i L acc]
    by (simp add: scanPattern_def)
  show ?case
    by (simp add: w Cons.IH[OF ps])
qed

lemma extractStringsFromLine_scan:
  "extractStringsFromLine S i L = Some (scanLine S i L)"
  by (simp add: extractStringsFromLine_def scanLine_def
        forPatterns_scan[OF getStringPatterns_wellFormed])

lemma forLines_noException:
  "forLines noException ls i L acc = Some (None, acc @ scanLines ls i L)"
  by (induction ls arbitrary: i acc) (simp_all add: noException_def extractStringsFromLine_scan)

lemma detect_scan: "detect D L = Some (scanLines (split D) 0 L)"
  by (simp add: detect_def forLines_noException)

lemmas scan_eval = detect_scan split_def LF_def scanLine_def scanPattern_def accept_def
  allMatches.simps utf16_def trim_def looksLikeCode_def codePatterns_def
  quoted_def tripleQuoted_def verbatim_def regex_eval


section \<open>Properties of a scan\<close>

lemma allMatches_bounds:
  "consumes r \<Longrightarrow> m \<in> set (allMatches r S k) \<Longrightarrow>
     k \<le> index m \<and> 0 < length (matched m) \<and> index m + length (matched m) \<le> length S"
proof (induction r S k rule: allMatches.induct)
  case (1 r S k)
  show ?case
  proof (cases "length S < k")
    case True
    with 1(3) show ?thesis by (simp add: allMatches.simps)
  next
    case False
    note nk = this
    show ?thesis
    proof (cases "search (length S) r (drop k S)")
      case None
      with nk 1(3) show ?thesis by (simp add: allMatches.simps)
    next
      case (Some res)
      obtain j e caps where res: "res = (j, e, caps)" by (cases res)
      from search_bounds[OF Some[unfolded res]] nk 1(2) have b: "k \<le> j" "j < e" "e \<le> length S"
        by auto
      from 1(3) nk Some res b
      have "m = \<lparr>index = j, matched = take (e - j) (drop j S), captured = caps\<rparr>
            \<or> m \<in> set (allMatches r S e)"
        by (subst (asm) allMatches.simps) (simp split: if_splits)
      then show ?thesis
      proof
        assume "m = \<lparr>index = j, matched = take (e - j) (drop j S), captured = caps\<rparr>"
        with b show ?thesis by simp
      next
        assume "m \<in> set (allMatches r S e)"
        from 1(1)[OF nk Some[unfolded res] refl refl _ 1(2) this] b show ?thesis by simp
      qed
    qed
  qed
qed

lemma allMatches_sorted:
  "consumes r \<Longrightarrow> sorted_wrt (\<lambda>a b. index a < index b) (allMatches r S k)"
proof (induction r S k rule: allMatches.induct)
  case (1 r S k)
  show ?case
  proof (cases "length S < k")
    case True
    then show ?thesis by (simp add: allMatches.simps)
  next
    case False
    note nk = this
    show ?thesis
    proof (cases "search (length S) r (drop k S)")
      case None
      with nk show ?thesis by (simp add: allMatches.simps)
    next
      case (Some res)
      obtain j e caps where res: "res = (j, e, caps)" by (cases res)
      from search_bounds[OF Some[unfolded res]] nk 1(2) have b: "k \<le> j" "j < e" "e \<le> length S"
        by auto
      have am: "allMatches r S k =
          \<lparr>index = j, matched = take (e - j) (drop j S), captured = caps\<rparr> # allMatches r S e"
        using nk Some res b by (subst allMatches.simps) simp
      have "\<forall>m \<in> set (allMatches r S e). j < index m"
        using allMatches_bounds[OF 1(2), of _ S e] b by fastforce
      with 1(1)[OF nk Some[unfolded res] refl refl _ 1(2)] b show ?thesis
        by (simp add: am)
    qed
  qed
qed

lemma accept_props:
  "d \<in> set (accept nm i L m) \<Longrightarrow>
     2 \<le> length (trim (text' d)) \<and> \<not> looksLikeCode (text' d) \<and> line d = i \<and>
     startChar d = index m \<and> endChar d = index m + length (matched m) \<and>
     quoteType d = nm \<and> languageId d = L"
  by (auto simp: accept_def split: option.splits if_splits)

lemma accept_length: "length (accept nm i L m) \<le> Suc 0"
  by (simp add: accept_def split: option.splits)

lemma scanPattern_props:
  assumes "wellFormed p" "d \<in> set (scanPattern p S i L)"
  shows "2 \<le> length (trim (text' d)) \<and> \<not> looksLikeCode (text' d) \<and> line d = i \<and>
         startChar d < endChar d \<and> endChar d \<le> length S \<and>
         quoteType d = name p \<and> languageId d = L"
proof -
  from assms(2) obtain m where m: "m \<in> set (allMatches (source (regex p)) S 0)"
    and d: "d \<in> set (accept (name p) i L m)"
    by (auto simp: scanPattern_def)
  from assms(1) have "consumes (source (regex p))" by (simp add: wellFormed_def)
  from allMatches_bounds[OF this m] accept_props[OF d] show ?thesis by simp
qed

lemma sorted_wrt_concat_single:
  assumes "sorted_wrt (\<lambda>a b. h a < h b) xs"
    and "\<And>x. x \<in> set xs \<Longrightarrow> length (f x) \<le> Suc 0"
    and "\<And>x d. x \<in> set xs \<Longrightarrow> d \<in> set (f x) \<Longrightarrow> g d = (h x :: nat)"
  shows "sorted_wrt (\<lambda>a b. g a < g b) (concat (map f xs))"
  using assms
proof (induction xs)
  case Nil
  show ?case by simp
next
  case (Cons x xs)
  have one: "sorted_wrt (\<lambda>a b. g a < g b) (f x)"
    using Cons.prems(2)[of x] by (cases "f x") auto
  have rest: "sorted_wrt (\<lambda>a b. g a < g b) (concat (map f xs))"
    using Cons.IH Cons.prems by simp
  have cross: "g a < g b" if "a \<in> set (f x)" "b \<in> set (concat (map f xs))" for a b
  proof -
    from that(2) obtain y where y: "y \<in> set xs" "b \<in> set (f y)" by auto
    from Cons.prems(1) y(1) have "h x < h y" by simp
    with Cons.prems(3)[of x a] Cons.prems(3)[of y b] that(1) y show ?thesis by simp
  qed
  show ?case using one rest cross by (simp add: sorted_wrt_append)
qed

lemma scanPattern_sorted:
  assumes "wellFormed p"
  shows "sorted_wrt (\<lambda>a b. startChar a < startChar b) (scanPattern p S i L)"
  unfolding scanPattern_def
proof (rule sorted_wrt_concat_single[where h = index])
  from assms have "consumes (source (regex p))" by (simp add: wellFormed_def)
  then show "sorted_wrt (\<lambda>a b. index a < index b) (allMatches (source (regex p)) S 0)"
    by (rule allMatches_sorted)
qed (simp_all add: accept_length accept_props)


lemma sorted_wrt_concat_nth:
  assumes "\<And>x. x \<in> set xs \<Longrightarrow> sorted_wrt P (f x)"
    and "\<And>i j a b. i < j \<Longrightarrow> j < length xs \<Longrightarrow> a \<in> set (f (xs ! i)) \<Longrightarrow>
           b \<in> set (f (xs ! j)) \<Longrightarrow> P a b"
  shows "sorted_wrt P (concat (map f xs))"
  using assms
proof (induction xs)
  case Nil
  show ?case by simp
next
  case (Cons x xs)
  have rest: "sorted_wrt P (concat (map f xs))"
  proof (rule Cons.IH)
    fix y assume "y \<in> set xs"
    then show "sorted_wrt P (f y)" using Cons.prems(1) by simp
  next
    fix i j a b
    assume "i < j" "j < length xs" "a \<in> set (f (xs ! i))" "b \<in> set (f (xs ! j))"
    then show "P a b" using Cons.prems(2)[of "Suc i" "Suc j" a b] by simp
  qed
  have cross: "P a b" if "a \<in> set (f x)" "b \<in> set (concat (map f xs))" for a b
  proof -
    from that(2) obtain y where y: "y \<in> set xs" "b \<in> set (f y)" by auto
    then obtain j where j: "j < length xs" "xs ! j = y" by (auto simp: in_set_conv_nth)
    with Cons.prems(2)[of 0 "Suc j" a b] that(1) y(2) show ?thesis by simp
  qed
  from Cons.prems(1)[of x] rest cross show ?case by (simp add: sorted_wrt_append)
qed

lemma takeWhile_rank:
  "distinct (map name ps) \<Longrightarrow> i < length ps \<Longrightarrow>
     length (takeWhile (\<lambda>p. name p \<noteq> name (ps ! i)) ps) = i"
proof (induction ps arbitrary: i)
  case Nil
  then show ?case by simp
next
  case (Cons p ps)
  show ?case
  proof (cases i)
    case 0
    then show ?thesis by simp
  next
    case (Suc j)
    with Cons.prems have "name p \<noteq> name (ps ! j)" by auto
    with Cons Suc show ?thesis by simp
  qed
qed

lemma getStringPatterns_distinct: "distinct (map name (getStringPatterns L))"
  by (simp add: getStringPatterns_def basePatterns_def utf16_def)

lemma scanLine_sorted: "sorted_wrt (codeOrder L) (scanLine S i L)"
  unfolding scanLine_def
proof (rule sorted_wrt_concat_nth)
  fix p assume p: "p \<in> set (getStringPatterns L)"
  with getStringPatterns_wellFormed[of L] have w: "wellFormed p" by (simp add: list_all_iff)
  have "sorted_wrt (\<lambda>a b. startChar a < startChar b) (scanPattern p S i L)"
    by (rule scanPattern_sorted[OF w])
  then show "sorted_wrt (codeOrder L) (scanPattern p S i L)"
  proof (rule sorted_wrt_mono_rel[rotated])
    fix a b
    assume "a \<in> set (scanPattern p S i L)" "b \<in> set (scanPattern p S i L)" "startChar a < startChar b"
    with scanPattern_props[OF w] show "codeOrder L a b" by (simp add: codeOrder_def)
  qed
next
  fix k j a b
  let ?ps = "getStringPatterns L"
  assume kj: "k < j" "j < length ?ps"
    and a: "a \<in> set (scanPattern (?ps ! k) S i L)" and b: "b \<in> set (scanPattern (?ps ! j) S i L)"
  from kj getStringPatterns_wellFormed[of L] have w: "wellFormed (?ps ! k)" "wellFormed (?ps ! j)"
    by (simp_all add: list_all_length)
  from scanPattern_props[OF w(1) a] scanPattern_props[OF w(2) b]
  have q: "quoteType a = name (?ps ! k)" "quoteType b = name (?ps ! j)" "line a = i" "line b = i"
    by simp_all
  from kj have "patternRank L (quoteType a) = k" "patternRank L (quoteType b) = j"
    unfolding patternRank_def q
    by (simp_all add: takeWhile_rank[OF getStringPatterns_distinct])
  with kj q show "codeOrder L a b" by (simp add: codeOrder_def)
qed

lemma scanLine_line: "d \<in> set (scanLine S i L) \<Longrightarrow> line d = i"
  using getStringPatterns_wellFormed[of L] scanPattern_props
  by (fastforce simp: scanLine_def list_all_iff)

lemma scanLines_line: "d \<in> set (scanLines ls i L) \<Longrightarrow> i \<le> line d \<and> line d < i + length ls"
proof (induction ls arbitrary: i)
  case Nil
  then show ?case by simp
next
  case (Cons S ls)
  from Cons.prems have "d \<in> set (scanLine S i L) \<or> d \<in> set (scanLines ls (Suc i) L)" by simp
  then show ?case using scanLine_line[of d S i L] Cons.IH[of "Suc i"] by fastforce
qed

lemma scanLines_sorted: "sorted_wrt (codeOrder L) (scanLines ls i L)"
proof (induction ls arbitrary: i)
  case Nil
  show ?case by simp
next
  case (Cons S ls)
  have "codeOrder L a b" if "a \<in> set (scanLine S i L)" "b \<in> set (scanLines ls (Suc i) L)" for a b
    using scanLine_line[OF that(1)] scanLines_line[OF that(2)] by (simp add: codeOrder_def)
  with scanLine_sorted[of L S i] Cons.IH[of "Suc i"] show ?case
    by (simp add: sorted_wrt_append)
qed


lemma scanLine_props:
  assumes "d \<in> set (scanLine S i L)"
  shows "2 \<le> length (trim (text' d)) \<and> \<not> looksLikeCode (text' d) \<and> line d = i \<and>
         startChar d < endChar d \<and> endChar d \<le> length S \<and> languageId d = L"
proof -
  from assms obtain p where p: "p \<in> set (getStringPatterns L)" "d \<in> set (scanPattern p S i L)"
    by (auto simp: scanLine_def)
  with getStringPatterns_wellFormed[of L] have "wellFormed p" by (simp add: list_all_iff)
  from scanPattern_props[OF this p(2)] show ?thesis by simp
qed

lemma scanLines_props:
  "d \<in> set (scanLines ls i L) \<Longrightarrow>
     i \<le> line d \<and> line d < i + length ls \<and>
     startChar d < endChar d \<and> endChar d \<le> length (ls ! (line d - i)) \<and>
     2 \<le> length (trim (text' d)) \<and> \<not> looksLikeCode (text' d) \<and> languageId d = L"
proof (induction ls arbitrary: i)
  case Nil
  then show ?case by simp
next
  case (Cons S ls)
  from Cons.prems have "d \<in> set (scanLine S i L) \<or> d \<in> set (scanLines ls (Suc i) L)" by simp
  then show ?case
  proof
    assume "d \<in> set (scanLine S i L)"
    from scanLine_props[OF this] show ?thesis by simp
  next
    assume "d \<in> set (scanLines ls (Suc i) L)"
    from Cons.IH[OF this] have ih: "Suc i \<le> line d" "line d < Suc i + length ls"
      "startChar d < endChar d" "endChar d \<le> length (ls ! (line d - Suc i))"
      "2 \<le> length (trim (text' d))" "\<not> looksLikeCode (text' d)" "languageId d = L"
      by simp_all
    from ih(1) have "line d - i = Suc (line d - Suc i)" by simp
    with ih show ?thesis by simp
  qed
qed

lemma search_Cls:
  "(search n (Cls neg items) s = None) = (\<forall>c \<in> set s. \<not> classMatches neg items c)"
  by (induction s) (simp_all add: rmatch.simps(4))

lemma test_Cls:
  "fst (test (literal (Cls neg items)) t) = (\<exists>c \<in> set t. classMatches neg items c)"
proof (cases "search (length t) (Cls neg items) t")
  case None
  then show ?thesis using search_Cls[of "length t" neg items t]
    by (simp add: test_def exec_def literal_def)
next
  case (Some res)
  then show ?thesis using search_Cls[of "length t" neg items t]
    by (cases res) (auto simp add: test_def exec_def literal_def)
qed

lemma looksLikeCode_punctuation:
  assumes "c \<in> set t" "c \<in> set (utf16 ''{}[]();,'')"
  shows "looksLikeCode t"
proof -
  from assms(2) have "classMatches False codePunctuation c"
    by (auto simp: classMatches_def codePunctuation_def utf16_def ch_def)
  with assms(1) have "fst (test (literal (Cls False codePunctuation)) t)"
    by (auto simp: test_Cls)
  moreover have "literal (Cls False codePunctuation) \<in> set codePatterns"
    by (simp add: codePatterns_def codePunctuation_def)
  ultimately show ?thesis by (auto simp: looksLikeCode_def list_ex_iff)
qed

lemma accept_languageId:
  "map (\<lambda>d. d\<lparr>languageId := L'\<rparr>) (accept nm i L m) = accept nm i L' m"
  by (simp add: accept_def split: option.splits)

lemma scanPattern_languageId:
  "map (\<lambda>d. d\<lparr>languageId := L'\<rparr>) (scanPattern p S i L) = scanPattern p S i L'"
  by (simp add: scanPattern_def map_concat comp_def accept_languageId)

lemma scanLine_languageId:
  "getStringPatterns L = getStringPatterns L' \<Longrightarrow>
     map (\<lambda>d. d\<lparr>languageId := L'\<rparr>) (scanLine S i L) = scanLine S i L'"
  by (simp add: scanLine_def map_concat comp_def scanPattern_languageId)

lemma scanLines_languageId:
  "getStringPatterns L = getStringPatterns L' \<Longrightarrow>
     map (\<lambda>d. d\<lparr>languageId := L'\<rparr>) (scanLines ls i L) = scanLines ls i L'"
  by (induction ls arbitrary: i) (simp_all add: scanLine_languageId)


section \<open>The stateful call\<close>

lemma forLines_raise:
  "k < length ls \<Longrightarrow> raises (i + k) = Some e \<Longrightarrow> (\<forall>j<k. raises (i + j) = None) \<Longrightarrow>
     forLines raises ls i L acc = Some (Some e, acc @ scanLines (take k ls) i L)"
proof (induction ls arbitrary: i k acc)
  case Nil
  then show ?case by simp
next
  case (Cons S ls)
  show ?case
  proof (cases k)
    case 0
    with Cons.prems show ?thesis by simp
  next
    case (Suc k')
    with Cons.prems have here: "raises i = None" by auto
    from Cons.prems Suc have "k' < length ls" "raises (Suc i + k') = Some e"
      "\<forall>j<k'. raises (Suc i + j) = None"
      by auto
    from Cons.IH[OF this] here Suc show ?thesis
      by (simp add: extractStringsFromLine_scan)
  qed
qed

lemma forLines_returns: "\<exists>res. forLines raises ls i L acc = Some res"
proof (induction ls arbitrary: i acc)
  case Nil
  show ?case by simp
next
  case (Cons S ls)
  show ?case
  proof (cases "raises i")
    case None
    with Cons.IH[of "Suc i" "acc @ scanLine S i L"] show ?thesis
      by (simp add: extractStringsFromLine_scan)
  next
    case (Some e)
    then show ?thesis by simp
  qed
qed

lemma detectStrings_this:
  "map_option fst (detectStrings raises document this) =
   map_option fst (detectStrings raises document this')"
  by (simp add: detectStrings_def logger_log_def logger_error_def Let_def
        split: option.splits prod.splits sum.splits)

lemma detectStrings_handler_throws:
  assumes "k < length (split (getText document))" "raises k = Some error" "\<forall>j<k. raises j = None"
    and "errorDetails error = Inl e"
  shows "detectStrings raises document this =
           Some (Inl e,
                 \<lparr>detectedStrings = scanLines (take k (split (getText document))) 0 (docLanguageId document),
                  outputChannel = outputChannel this @
                    [utf16 ''Detecting strings in '' @ fileName document]\<rparr>)"
  using forLines_raise[of k "split (getText document)" raises 0 error "docLanguageId document" "[]"] assms
  by (simp add: detectStrings_def logger_log_def logger_error_def)

lemma detectStrings_detect:
  "\<exists>this'. detectStrings noException document this =
             Some (Inr (scanLines (split (getText document)) 0 (docLanguageId document)), this') \<and>
           detectedStrings this' = scanLines (split (getText document)) 0 (docLanguageId document)"
  by (simp add: detectStrings_def forLines_noException logger_log_def)

section \<open>The properties of the specification\<close>

text \<open>
  C1 (as amended).  For the line \<open>const greeting = "Hello, world!";\<close> and the language
  identifier \<open>typescript\<close>, \<open>detect\<close> returns no detection at all: the body
  \<open>Hello, world!\<close> of the only quoted candidate contains a comma, which \<open>looksLikeCode\<close>
  counts as code punctuation, and nothing is emitted for the bare identifiers.  For the same
  line without the comma, \<open>detect\<close> returns exactly one detection, with text
  \<open>Hello world!\<close>, quote type \<open>double\<close> and the span 17 to 31 of the quoted substring,
  delimiters included.
\<close>

theorem C1_hello_world:
  "looksLikeCode (utf16 ''Hello, world!'') \<and>
   detect (utf16 ''const greeting = \"Hello, world!\";'') (utf16 ''typescript'') = Some [] \<and>
   detect (utf16 ''const greeting = \"Hello world!\";'') (utf16 ''typescript'') =
     Some [\<lparr>text' = utf16 ''Hello world!'', line = 0, startChar = 17, endChar = 31,
            quoteType = utf16 ''double'', languageId = utf16 ''typescript''\<rparr>]"
  by (simp add: scan_eval getStringPatterns_def basePatterns_def)

text \<open>The claim as stated fails: on that line the number of detections is 0, not 1.\<close>

theorem C1_counterexample:
  "map_option length
     (detect (utf16 ''const greeting = \"Hello, world!\";'') (utf16 ''typescript'')) = Some 0"
  by (simp add: scan_eval getStringPatterns_def basePatterns_def)

text \<open>
  C2 (as amended).  For every document text and every language identifier, \<open>detect\<close>
  returns, and the sequence it returns is strictly increasing in this order: by line; on the
  same line by the position of the pattern in the list of \<open>getStringPatterns\<close> (the base
  patterns \<open>double\<close> and \<open>single\<close> first, then those of the dialect); for the same
  pattern on the same line by start column.
\<close>

theorem C2_emission_order:
  "\<exists>ds. detect D L = Some ds \<and> sorted_wrt (codeOrder L) ds"
  by (simp add: detect_scan scanLines_sorted)

theorem C2_witness:
  "\<exists>ds. detect (utf16 ([CHR 0x27] @ ''hello world'' @ [CHR 0x27] @ '' \"foo bar\"'')) (utf16 ''plaintext'') = Some ds \<and>
        length ds = 2 \<and> sorted_wrt (codeOrder (utf16 ''plaintext'')) ds"
proof -
  have "detect (utf16 ([CHR 0x27] @ ''hello world'' @ [CHR 0x27] @ '' \"foo bar\"'')) (utf16 ''plaintext'') =
     Some [\<lparr>text' = utf16 ''foo bar'', line = 0, startChar = 14, endChar = 23,
            quoteType = utf16 ''double'', languageId = utf16 ''plaintext''\<rparr>,
           \<lparr>text' = utf16 ''hello world'', line = 0, startChar = 0, endChar = 13,
            quoteType = utf16 ''single'', languageId = utf16 ''plaintext''\<rparr>]"
    by (simp add: scan_eval getStringPatterns_def basePatterns_def)
  with C2_emission_order [of "utf16 ([CHR 0x27] @ ''hello world'' @ [CHR 0x27] @ '' \"foo bar\"'')" "utf16 ''plaintext''"]
  show ?thesis by auto
qed

text \<open>
  The claim as stated fails: on the line \<open>'hello world' "foo bar"\<close> the detection of the
  pattern \<open>double\<close> at column 14 comes before that of the pattern \<open>single\<close> at column 0,
  so the result is not sorted by start column within the line.
\<close>

theorem C2_counterexample:
  "detect (utf16 ([CHR 0x27] @ ''hello world'' @ [CHR 0x27] @ '' \"foo bar\"'')) (utf16 ''plaintext'') =
     Some [\<lparr>text' = utf16 ''foo bar'', line = 0, startChar = 14, endChar = 23,
            quoteType = utf16 ''double'', languageId = utf16 ''plaintext''\<rparr>,
           \<lparr>text' = utf16 ''hello world'', line = 0, startChar = 0, endChar = 13,
            quoteType = utf16 ''single'', languageId = utf16 ''plaintext''\<rparr>] \<and>
   \<not> sorted_wrt specOrder
       [\<lparr>text' = utf16 ''foo bar'', line = 0, startChar = 14, endChar = 23,
            quoteType = utf16 ''double'', languageId = utf16 ''plaintext''\<rparr>,
           \<lparr>text' = utf16 ''hello world'', line = 0, startChar = 0, endChar = 13,
            quoteType = utf16 ''single'', languageId = utf16 ''plaintext''\<rparr>]"
  by (simp add: scan_eval getStringPatterns_def basePatterns_def specOrder_def)

text \<open>
  C3.  For every document text and every language identifier, \<open>detect\<close> returns, and every
  detection it returns is on a line of the document (the text split at line feeds, carriage
  returns kept), has \<open>0 \<le> startChar < endChar \<le>\<close> the length of that line, and a text
  whose trimmed length is at least 2.  (\<open>0 \<le> startChar\<close> holds of any natural number.)
\<close>

theorem C3_bounds:
  "\<exists>ds. detect D L = Some ds \<and>
     list_all (\<lambda>d. line d < length (split D) \<and> 0 \<le> startChar d \<and> startChar d < endChar d \<and>
                   endChar d \<le> length (split D ! line d) \<and>
                   2 \<le> length (trim (text' d))) ds"
  using scanLines_props[of _ "split D" 0 L]
  by (auto simp: detect_scan list_all_iff)

theorem C3_witness:
  "\<exists>ds. detect (utf16 (''a = \"hello world\"'' @ [CHR 0x0D, CHR 0x0A] @ ''b = \"good bye\"'')) (utf16 ''plaintext'') = Some ds \<and> length ds = 2 \<and>
     list_all (\<lambda>d. line d < length (split (utf16 (''a = \"hello world\"'' @ [CHR 0x0D, CHR 0x0A] @ ''b = \"good bye\"''))) \<and> 0 \<le> startChar d \<and>
                   startChar d < endChar d \<and>
                   endChar d \<le> length (split (utf16 (''a = \"hello world\"'' @ [CHR 0x0D, CHR 0x0A] @ ''b = \"good bye\"'')) ! line d) \<and>
                   2 \<le> length (trim (text' d))) ds"
proof -
  have "detect (utf16 (''a = \"hello world\"'' @ [CHR 0x0D, CHR 0x0A] @ ''b = \"good bye\"'')) (utf16 ''plaintext'') =
     Some [\<lparr>text' = utf16 ''hello world'', line = 0, startChar = 4, endChar = 17,
            quoteType = utf16 ''double'', languageId = utf16 ''plaintext''\<rparr>,
           \<lparr>text' = utf16 ''good bye'', line = 1, startChar = 4, endChar = 14,
            quoteType = utf16 ''double'', languageId = utf16 ''plaintext''\<rparr>]"
    by (simp add: scan_eval getStringPatterns_def basePatterns_def)
  with C3_bounds [of "utf16 (''a = \"hello world\"'' @ [CHR 0x0D, CHR 0x0A] @ ''b = \"good bye\"'')" "utf16 ''plaintext''"]
  show ?thesis by auto
qed

text \<open>
  C4 (as amended).  For the line \<open>@"a ""quoted"" word"\<close> and the language identifier
  \<open>csharp\<close>, \<open>detect\<close> returns exactly two detections: first one of quote type
  \<open>double\<close> with the text \<open> word\<close> at columns 13 to 20, which the base pattern finds in
  the tail \<open>" word"\<close> of the line, then one of quote type \<open>verbatim\<close> over the whole line,
  columns 0 to 20, whose text \<open>a ""quoted"" word\<close> keeps the doubled quotes as they are.
\<close>

theorem C4_verbatim:
  "detect (utf16 ''@\"a \"\"quoted\"\" word\"'') (utf16 ''csharp'') =
     Some [\<lparr>text' = utf16 '' word'', line = 0, startChar = 13, endChar = 20,
            quoteType = utf16 ''double'', languageId = utf16 ''csharp''\<rparr>,
           \<lparr>text' = utf16 ''a \"\"quoted\"\" word'', line = 0, startChar = 0, endChar = 20,
            quoteType = utf16 ''verbatim'', languageId = utf16 ''csharp''\<rparr>]"
  by (simp add: scan_eval getStringPatterns_def basePatterns_def)

text \<open>The claim as stated fails: there are two detections, and the first is not
  \<open>verbatim\<close>.\<close>

theorem C4_counterexample:
  "map_option (map quoteType) (detect (utf16 ''@\"a \"\"quoted\"\" word\"'') (utf16 ''csharp'')) =
     Some [utf16 ''double'', utf16 ''verbatim'']"
  by (simp add: scan_eval getStringPatterns_def basePatterns_def)

text \<open>
  C5.  For the line \<open>`hi there`\<close>, \<open>detect\<close> returns one detection of quote type
  \<open>template\<close> when the language identifier is \<open>javascript\<close>, \<open>typescript\<close>,
  \<open>javascriptreact\<close> or \<open>typescriptreact\<close>, and no detection when the language identifier
  is none of the tags that \<open>getStringPatterns\<close> knows.
\<close>

theorem C5_template_gating:
  "(L = utf16 ''javascript'' \<or> L = utf16 ''typescript'' \<or> L = utf16 ''javascriptreact'' \<or>
    L = utf16 ''typescriptreact'' \<longrightarrow>
      detect (utf16 ''`hi there`'') L =
        Some [\<lparr>text' = utf16 ''hi there'', line = 0, startChar = 0, endChar = 10,
               quoteType = utf16 ''template'', languageId = L\<rparr>]) \<and>
   (L \<noteq> utf16 ''javascript'' \<and> L \<noteq> utf16 ''typescript'' \<and> L \<noteq> utf16 ''javascriptreact'' \<and>
    L \<noteq> utf16 ''typescriptreact'' \<and> L \<noteq> utf16 ''python'' \<and> L \<noteq> utf16 ''csharp'' \<and>
    L \<noteq> utf16 ''fsharp'' \<and> L \<noteq> utf16 ''php'' \<longrightarrow>
      detect (utf16 ''`hi there`'') L = Some [])"
  by (simp add: scan_eval getStringPatterns_def basePatterns_def)

theorem C5_witness:
  "detect (utf16 ''`hi there`'') (utf16 ''typescriptreact'') =
     Some [\<lparr>text' = utf16 ''hi there'', line = 0, startChar = 0, endChar = 10,
            quoteType = utf16 ''template'', languageId = utf16 ''typescriptreact''\<rparr>] \<and>
   detect (utf16 ''`hi there`'') (utf16 ''plaintext'') = Some []"
  using C5_template_gating [of "utf16 ''typescriptreact''"]
        C5_template_gating [of "utf16 ''plaintext''"]
  by (simp add: utf16_def)

text \<open>
  C6.  Whatever the language identifier, a line that is only \<open>"42"\<close> yields no detection,
  a line that is only \<open>"x"\<close> yields no detection, and a line that is only
  \<open>"hello world"\<close> yields exactly one detection, of quote type \<open>double\<close> and with the
  text \<open>hello world\<close>.
\<close>

theorem C6_rejection_laws:
  "detect (utf16 ''\"42\"'') L = Some [] \<and>
   detect (utf16 ''\"x\"'') L = Some [] \<and>
   detect (utf16 ''\"hello world\"'') L =
     Some [\<lparr>text' = utf16 ''hello world'', line = 0, startChar = 0, endChar = 13,
            quoteType = utf16 ''double'', languageId = L\<rparr>]"
  by (simp add: scan_eval getStringPatterns_def basePatterns_def)




text \<open>
  C8.  For every document and every detector state, \<open>detectStrings\<close> returns, and a second
  call on the unchanged document, made in the state the first call left, returns the same
  value: \<open>this.detectedStrings\<close> is emptied at the start of each call and the patterns are
  created anew for each line, so nothing of one call or one line is seen by the next.
\<close>

theorem C8_idempotent:
  "\<exists>r this1 this2.
     detectStrings raises document this = Some (r, this1) \<and>
     detectStrings raises document this1 = Some (r, this2)"
proof -
  obtain res
    where res: "forLines raises (split (getText document)) 0 (docLanguageId document) [] = Some res"
    using forLines_returns by blast
  have "\<exists>r this1. detectStrings raises document this = Some (r, this1)"
  proof (cases res)
    case (Pair ex detected)
    show ?thesis
    proof (cases ex)
      case None
      with res Pair show ?thesis
        by (simp add: detectStrings_def logger_log_def)
    next
      case (Some error)
      with res Pair show ?thesis
        by (cases "errorDetails error")
           (simp_all add: detectStrings_def logger_log_def logger_error_def)
    qed
  qed
  then obtain r this1 where one: "detectStrings raises document this = Some (r, this1)"
    by blast
  from detectStrings_this[of raises document this this1] one
  obtain this2 where "detectStrings raises document this1 = Some (r, this2)"
    by (cases "detectStrings raises document this1") auto
  with one show ?thesis by blast
qed

theorem C8_witness:
  "\<exists>r this1 this2.
     detectStrings noException
       \<lparr>fileName = utf16 ''a.ts'', docLanguageId = utf16 ''typescript'',
        getText = utf16 ''\"hello world\"''\<rparr>
       \<lparr>detectedStrings = [], outputChannel = []\<rparr> = Some (r, this1) \<and>
     detectStrings noException
       \<lparr>fileName = utf16 ''a.ts'', docLanguageId = utf16 ''typescript'',
        getText = utf16 ''\"hello world\"''\<rparr> this1 = Some (r, this2)"
  using C8_idempotent [of noException
      "\<lparr>fileName = utf16 ''a.ts'', docLanguageId = utf16 ''typescript'',
        getText = utf16 ''\"hello world\"''\<rparr>"
      "\<lparr>detectedStrings = [], outputChannel = []\<rparr>"]
  by simp

text \<open>
  C9.  For every document text and every language identifier, \<open>detect\<close> returns, and the
  text of every detection it returns contains none of the characters
  \<open>{ } [ ] ( ) ; ,\<close>: a literal whose body contains one of them is never reported,
  whatever the dialect and the quote type.
\<close>

theorem C9_no_code_punctuation:
  "\<exists>ds. detect D L = Some ds \<and>
     list_all (\<lambda>d. list_all (\<lambda>c. c \<notin> set (utf16 ''{}[]();,'')) (text' d)) ds"
  using scanLines_props[of _ "split D" 0 L] looksLikeCode_punctuation
  by (auto simp: detect_scan list_all_iff)

theorem C9_witness:
  "\<exists>ds. detect (utf16 ''f(\"a, b\", \"see you\")'') (utf16 ''plaintext'') = Some ds \<and> map text' ds = [utf16 ''see you''] \<and>
     list_all (\<lambda>d. list_all (\<lambda>c. c \<notin> set (utf16 ''{}[]();,'')) (text' d)) ds"
proof -
  have "detect (utf16 ''f(\"a, b\", \"see you\")'') (utf16 ''plaintext'') =
     Some [\<lparr>text' = utf16 ''see you'', line = 0, startChar = 10, endChar = 19,
            quoteType = utf16 ''double'', languageId = utf16 ''plaintext''\<rparr>]"
    by (simp add: scan_eval getStringPatterns_def basePatterns_def)
  with C9_no_code_punctuation [of "utf16 ''f(\"a, b\", \"see you\")''" "utf16 ''plaintext''"]
  show ?thesis by auto
qed

text \<open>
  C10.  For every document text \<open>D\<close> and every language identifier \<open>L\<close> that is none of
  the tags \<open>getStringPatterns\<close> knows, \<open>detect D php\<close> is \<open>detect D L\<close> with the
  \<open>languageId\<close> field of each record set to \<open>php\<close>: the \<open>php\<close> branch adds no pattern.
\<close>

theorem C10_php_generic:
  "L \<noteq> utf16 ''javascript'' \<and> L \<noteq> utf16 ''typescript'' \<and> L \<noteq> utf16 ''javascriptreact'' \<and>
   L \<noteq> utf16 ''typescriptreact'' \<and> L \<noteq> utf16 ''python'' \<and> L \<noteq> utf16 ''csharp'' \<and>
   L \<noteq> utf16 ''fsharp'' \<and> L \<noteq> utf16 ''php'' \<Longrightarrow>
   detect D (utf16 ''php'') =
     map_option (map (\<lambda>d. d\<lparr>languageId := utf16 ''php''\<rparr>)) (detect D L)"
proof -
  assume "L \<noteq> utf16 ''javascript'' \<and> L \<noteq> utf16 ''typescript'' \<and> L \<noteq> utf16 ''javascriptreact'' \<and>
   L \<noteq> utf16 ''typescriptreact'' \<and> L \<noteq> utf16 ''python'' \<and> L \<noteq> utf16 ''csharp'' \<and>
   L \<noteq> utf16 ''fsharp'' \<and> L \<noteq> utf16 ''php''"
  then have "getStringPatterns L = getStringPatterns (utf16 ''php'')"
    by (simp add: getStringPatterns_def utf16_def)
  from scanLines_languageId[OF this] show ?thesis
    by (simp add: detect_scan)
qed

theorem C10_witness:
  "detect (utf16 ''echo \"hello world\";'') (utf16 ''php'') =
     map_option (map (\<lambda>d. d\<lparr>languageId := utf16 ''php''\<rparr>))
       (detect (utf16 ''echo \"hello world\";'') (utf16 ''plaintext'')) \<and>
   detect (utf16 ''echo \"hello world\";'') (utf16 ''plaintext'') =
     Some [\<lparr>text' = utf16 ''hello world'', line = 0, startChar = 5, endChar = 18,
            quoteType = utf16 ''double'', languageId = utf16 ''plaintext''\<rparr>]"
proof -
  have "detect (utf16 ''echo \"hello world\";'') (utf16 ''plaintext'') =
     Some [\<lparr>text' = utf16 ''hello world'', line = 0, startChar = 5, endChar = 18,
            quoteType = utf16 ''double'', languageId = utf16 ''plaintext''\<rparr>]"
    by (simp add: scan_eval getStringPatterns_def basePatterns_def)
  moreover have "detect (utf16 ''echo \"hello world\";'') (utf16 ''php'') =
     map_option (map (\<lambda>d. d\<lparr>languageId := utf16 ''php''\<rparr>))
       (detect (utf16 ''echo \"hello world\";'') (utf16 ''plaintext''))"
    using C10_php_generic [of "utf16 ''plaintext''" "utf16 ''echo \"hello world\";''"]
    by (simp add: utf16_def)
  ultimately show ?thesis by simp
qed

end
